theory Spec2Isabelle
  imports Main
begin

section \<open>The model\<close>

subsection \<open>Python values and exceptions\<close>

text \<open>
  The values that reach \<open>marshal\<close> as \<open>data\<close>. Each constructor stands for a kind of
  Python object, told apart by the two capabilities that \<open>core.py\<close> probes with
  \<open>hasattr\<close>: \<open>__iter__\<close> and \<open>strip\<close>.
  \<^item> \<open>PNone\<close>, \<open>PInt\<close>: scalars, with neither capability;
  \<^item> \<open>PStr\<close>: a string, which has \<open>strip\<close>;
  \<^item> \<open>PList\<close>: a list (or any other finite sequence), iterated element by element;
  \<^item> \<open>PDict\<close>: a dict, given by its items in iteration order; iterating it yields its keys;
  \<^item> \<open>PObject\<close>: an instance of a plain class (one that defines neither \<open>__iter__\<close>
    nor \<open>strip\<close>), given by its attributes.
\<close>

datatype pyval =
    PNone
  | PInt int
  | PStr string
  | PList "pyval list"
  | PDict "(pyval \<times> pyval) list"
  | PObject "(string \<times> pyval) list"

datatype exn = TypeError | AttributeError | KeyError | ValidationError | OtherError string

text \<open>\<open>hasattr(obj, "__iter__")\<close>. (A Python 3 string has \<open>__iter__\<close>, a Python 2 string
  has not; \<open>_is_iterable_but_not_string\<close> is False on a string either way.)\<close>

fun hasattr_iter :: "pyval \<Rightarrow> bool" where
  "hasattr_iter PNone = False"
| "hasattr_iter (PInt i) = False"
| "hasattr_iter (PStr s) = True"
| "hasattr_iter (PList xs) = True"
| "hasattr_iter (PDict kvs) = True"
| "hasattr_iter (PObject attrs) = False"

text \<open>\<open>hasattr(obj, "strip")\<close>.\<close>

fun hasattr_strip :: "pyval \<Rightarrow> bool" where
  "hasattr_strip (PStr s) = True"
| "hasattr_strip v = False"

text \<open>The elements that \<open>for d in data\<close> yields, in order: the elements of a list, the keys
  of a dict, the one-character strings of a string. The source iterates only values that
  have \<open>__iter__\<close>.\<close>

fun py_iter :: "pyval \<Rightarrow> pyval list" where
  "py_iter (PList xs) = xs"
| "py_iter (PDict kvs) = map fst kvs"
| "py_iter (PStr s) = map (\<lambda>c. PStr [c]) s"
| "py_iter v = []"

subsection \<open>OrderedDict\<close>

text \<open>
  An \<open>OrderedDict\<close> is the list of its items in insertion order, with distinct keys.
  \<open>od_setitem\<close> is \<open>od[k] = v\<close>: a key that is present keeps its position and takes the
  new value, a new key goes to the end. \<open>OrderedDict\<close> is the constructor applied to a
  sequence of pairs, which inserts them one after the other.
\<close>

type_synonym ('k, 'v) odict = "('k \<times> 'v) list"

fun od_setitem :: "('k, 'v) odict \<Rightarrow> 'k \<Rightarrow> 'v \<Rightarrow> ('k, 'v) odict" where
  "od_setitem [] k v = [(k, v)]"
| "od_setitem ((k', v') # od) k v =
     (if k' = k then (k, v) # od else (k', v') # od_setitem od k v)"

definition OrderedDict :: "('k \<times> 'v) list \<Rightarrow> ('k, 'v) odict" where
  "OrderedDict ps = foldl (\<lambda>od (k, v). od_setitem od k v) [] ps"

subsection \<open>marshal\<close>

text \<open>
  The values of the \<open>fields\<close> argument of \<open>marshal\<close>: either a dict (\<open>Nested\<close>, where
  \<open>isinstance(v, dict)\<close> holds), or any other object (\<open>Leaf\<close>), on which the source calls
  \<open>v.output(k, data)\<close>.
\<close>

datatype 'x fspec = Leaf 'x | Nested "(string \<times> 'x fspec) list"

text \<open>What \<open>marshal\<close> returns: an \<open>OrderedDict\<close> whose values are field outputs or the
  results of nested calls, or a list of results.\<close>

datatype 'v presult =
    Output 'v
  | ODict "(string \<times> 'v presult) list"
  | RList "'v presult list"

definition is_iterable_but_not_string :: "pyval \<Rightarrow> bool" where
  "is_iterable_but_not_string obj = (hasattr_iter obj \<and> \<not> hasattr_strip obj)"

text \<open>
  \<open>marshal(data, fields)\<close>. The method \<open>output\<close> of the field objects is a parameter
  \<open>out\<close>: \<open>out v k data\<close> is the result of \<open>v.output(k, data)\<close>, a value or the exception it
  raises. \<open>marshal_each\<close> is the list comprehension \<open>[marshal(d, fields) for d in data]\<close>
  and \<open>marshal_items\<close> the generator of the pairs \<open>(k, ...)\<close> over \<open>fields.items()\<close>; both
  stop at the first exception, which then leaves \<open>marshal\<close>.
\<close>

function marshal :: "('x \<Rightarrow> string \<Rightarrow> pyval \<Rightarrow> exn + 'v) \<Rightarrow> pyval \<Rightarrow> (string \<times> 'x fspec) list
      \<Rightarrow> exn + 'v presult"
  and marshal_each :: "('x \<Rightarrow> string \<Rightarrow> pyval \<Rightarrow> exn + 'v) \<Rightarrow> pyval list
      \<Rightarrow> (string \<times> 'x fspec) list \<Rightarrow> exn + 'v presult list"
  and marshal_items :: "('x \<Rightarrow> string \<Rightarrow> pyval \<Rightarrow> exn + 'v) \<Rightarrow> pyval
      \<Rightarrow> (string \<times> 'x fspec) list \<Rightarrow> exn + (string \<times> 'v presult) list"
  where
  "marshal out data fields =
     (if is_iterable_but_not_string data
      then (case marshal_each out (py_iter data) fields of
              Inl e \<Rightarrow> Inl e
            | Inr rs \<Rightarrow> Inr (RList rs))
      else (case marshal_items out data fields of
              Inl e \<Rightarrow> Inl e
            | Inr items \<Rightarrow> Inr (ODict (OrderedDict items))))"
| "marshal_each out [] fields = Inr []"
| "marshal_each out (d # ds) fields =
     (case marshal out d fields of
        Inl e \<Rightarrow> Inl e
      | Inr r \<Rightarrow> (case marshal_each out ds fields of
                   Inl e \<Rightarrow> Inl e
                 | Inr rs \<Rightarrow> Inr (r # rs)))"
| "marshal_items out data [] = Inr []"
| "marshal_items out data ((k, v) # rest) =
     (case (case v of Nested m \<Rightarrow> marshal out data m
                    | Leaf f \<Rightarrow> (case out f k data of
                                  Inl e \<Rightarrow> Inl e
                                | Inr x \<Rightarrow> Inr (Output x))) of
        Inl e \<Rightarrow> Inl e
      | Inr r \<Rightarrow> (case marshal_items out data rest of
                   Inl e \<Rightarrow> Inl e
                 | Inr items \<Rightarrow> Inr ((k, r) # items)))"
  by pat_completeness auto
termination
proof -
  have iter_smaller: "size_list size (py_iter d) < size d"
    if "is_iterable_but_not_string d" for d
  proof (cases d)
    case (PDict kvs)
    have "size_list size (map fst kvs) \<le> size_list (size_prod size size) kvs"
      by (induction kvs) auto
    with PDict show ?thesis by simp
  qed (use that in \<open>simp_all add: is_iterable_but_not_string_def\<close>)
  show ?thesis
    by (relation "measure (\<lambda>a. case a of
          Inl (out, d, fs) \<Rightarrow> 2 * (size d + size_list (size_prod (\<lambda>_. 0) size) fs) + 1
        | Inr (Inl (out, ds, fs)) \<Rightarrow>
            2 * (size_list size ds + size_list (size_prod (\<lambda>_. 0) size) fs)
        | Inr (Inr (out, d, fs)) \<Rightarrow> 2 * (size d + size_list (size_prod (\<lambda>_. 0) size) fs))")
       (auto dest: iter_smaller)
qed

subsection \<open>Example fields\<close>

text \<open>Modelled from the spec: the field classes of the library (\<open>base.Field\<close> and its
  subclasses) are not part of \<open>core.py\<close>, and \<open>marshal\<close> is verified for every \<open>output\<close>.
  To evaluate the definitions at concrete inputs, two example fields: \<open>Attr\<close> retrieves
  the attribute of the source object that is named by the key and raises
  \<open>AttributeError\<close> when there is none, \<open>Whole\<close> returns the source object itself.
\<close>

datatype example_field = Attr | Whole

fun example_output :: "example_field \<Rightarrow> string \<Rightarrow> pyval \<Rightarrow> exn + pyval" where
  "example_output Attr k (PObject attrs) =
     (case map_of attrs k of Some v \<Rightarrow> Inr v | None \<Rightarrow> Inl AttributeError)"
| "example_output Attr k v = Inl AttributeError"
| "example_output Whole k v = Inr v"

subsection \<open>Results in sequence\<close>

text \<open>The outcome of evaluating a list of computations from left to right: the list of
  their values, or the first exception.\<close>

fun sequence_results :: "('e + 'a) list \<Rightarrow> 'e + 'a list" where
  "sequence_results [] = Inr []"
| "sequence_results (r # rs) =
     (case r of
        Inl e \<Rightarrow> Inl e
      | Inr x \<Rightarrow> (case sequence_results rs of Inl e \<Rightarrow> Inl e | Inr xs \<Rightarrow> Inr (x # xs)))"

subsection \<open>Flat field mappings\<close>

text \<open>A field mapping without nested mappings.\<close>

definition flat :: "(string \<times> 'x) list \<Rightarrow> (string \<times> 'x fspec) list" where
  "flat fs = map (\<lambda>(k, f). (k, Leaf f)) fs"

subsection \<open>The order of the keys of an OrderedDict\<close>

text \<open>
  \<open>first_occurrences xs\<close> is \<open>xs\<close> with every repeated occurrence of an element removed:
  each element stays at the position of its first occurrence.
\<close>

function first_occurrences :: "'a list \<Rightarrow> 'a list" where
  "first_occurrences [] = []"
| "first_occurrences (x # xs) = x # first_occurrences (removeAll x xs)"
  by pat_completeness auto
termination
  by (relation "measure length") (auto simp: less_Suc_eq_le length_removeAll_less_eq)

subsection \<open>Objects and classes\<close>

text \<open>Modelled from the spec: the class \<open>base.Field\<close>, which is not part of \<open>core.py\<close>. A
  field specification holds an optional \<open>parent\<close>, the back-reference to the schema
  instance that owns it (\<open>None\<close> when it is unset). A field class has \<open>parent\<close> as a class
  attribute. A field instance knows its class and may have an attribute \<open>parent\<close> of its
  own (\<open>Own\<close>); when it has none (\<open>Absent\<close>), reading \<open>parent\<close> on the instance gives
  the attribute of its class, as for every Python attribute. The content \<open>'f\<close> is
  everything else.

  The class attributes of a schema definition are references to objects. An object is
  a class that is \<open>base.Field\<close> or a subclass of it, an instance of such a class, any
  other class, or any other object. Schema instances are named by identifiers of their
  own (\<open>sid\<close>). The heap maps every address to an object; \<open>next_addr\<close> and
  \<open>next_sid\<close> are the next address and the next schema instance identifier that an
  allocation returns.
\<close>

type_synonym addr = nat

type_synonym sid = nat

datatype own_parent = Absent | Own "sid option"

datatype 'f pyobj =
    FieldClass 'f "sid option"
  | FieldInstance addr 'f own_parent
  | OtherClass
  | OtherObject

record 'f heap =
  objects :: "addr \<Rightarrow> 'f pyobj"
  next_addr :: addr
  next_sid :: sid

text \<open>\<open>issubclass(val, base.Field)\<close>: \<open>None\<close> stands for the \<open>TypeError\<close> that \<open>issubclass\<close>
  raises when \<open>val\<close> is not a class.\<close>

fun issubclass_Field :: "'f pyobj \<Rightarrow> bool option" where
  "issubclass_Field (FieldClass f p) = Some True"
| "issubclass_Field OtherClass = Some False"
| "issubclass_Field (FieldInstance c f p) = None"
| "issubclass_Field OtherObject = None"

text \<open>\<open>isinstance(val, base.Field)\<close>.\<close>

fun isinstance_Field :: "'f pyobj \<Rightarrow> bool" where
  "isinstance_Field (FieldInstance c f p) = True"
| "isinstance_Field obj = False"

text \<open>\<open>is_instance_or_subclass(val, base.Field)\<close>: the result of \<open>issubclass\<close>, and that of
  \<open>isinstance\<close> when \<open>issubclass\<close> raises \<open>TypeError\<close>.\<close>

definition is_instance_or_subclass_Field :: "'f pyobj \<Rightarrow> bool" where
  "is_instance_or_subclass_Field val =
     (case issubclass_Field val of
        Some b \<Rightarrow> b
      | None \<Rightarrow> isinstance_Field val)"

text \<open>
  A class: its name, its namespace (a dict, given by its items in iteration order, which
  is the order of the declarations in the class body), and what the attribute
  \<open>_base_fields\<close> of the class is (\<open>None\<close> when \<open>hasattr(cls, '_base_fields')\<close> is false).
\<close>

record pyclass =
  cls_name :: string
  cls_dict :: "(string \<times> addr) list"
  cls_base_fields :: "(string, addr) odict option"

subsection \<open>Schema compilation\<close>

text \<open>
  \<open>_get_declared_fields(bases, attrs)\<close>. The fields are the items of \<open>attrs\<close> whose value
  passes \<open>is_instance_or_subclass\<close>; \<open>attrs.pop\<close> removes them from \<open>attrs\<close> (the keys
  of a dict are unique), so the function returns the mapping together with what is
  left of \<open>attrs\<close>. The loop over \<open>bases[::-1]\<close> puts the items of \<open>_base_fields\<close> of
  every base class that has the attribute in front of the list, and \<open>OrderedDict\<close>
  builds the mapping from the list.
\<close>

definition get_declared_fields ::
  "'f heap \<Rightarrow> pyclass list \<Rightarrow> (string \<times> addr) list \<Rightarrow> (string, addr) odict \<times> (string \<times> addr) list"
  where
  "get_declared_fields h bases attrs =
     (let declared = filter (\<lambda>(field_name, val). is_instance_or_subclass_Field (objects h val)) attrs;
          attrs' = filter (\<lambda>(field_name, val). \<not> is_instance_or_subclass_Field (objects h val)) attrs;
          declared = foldl (\<lambda>declared base_class.
                        case cls_base_fields base_class of
                          Some base_fields \<Rightarrow> base_fields @ declared
                        | None \<Rightarrow> declared) declared (rev bases)
      in (OrderedDict declared, attrs'))"

text \<open>\<open>SerializerMeta.__new__(cls, name, bases, attrs)\<close>: the class with \<open>_base_fields\<close>
  bound to the declared fields.\<close>

definition SerializerMeta_new :: "'f heap \<Rightarrow> string \<Rightarrow> pyclass list \<Rightarrow> (string \<times> addr) list \<Rightarrow> pyclass"
  where
  "SerializerMeta_new h name bases attrs =
     (let (base_fields, attrs') = get_declared_fields h bases attrs
      in \<lparr>cls_name = name, cls_dict = attrs', cls_base_fields = Some base_fields\<rparr>)"

text \<open>\<open>BaseSerializer\<close> is an ordinary class, without \<open>_base_fields\<close>. \<open>Serializer\<close> is made by
  \<open>SerializerMeta\<close> from \<open>BaseSerializer\<close> and declares no field (lemma
  \<open>Serializer_is_compiled\<close>).\<close>

definition BaseSerializer :: pyclass where
  "BaseSerializer = \<lparr>cls_name = ''BaseSerializer'', cls_dict = [], cls_base_fields = None\<rparr>"

definition Serializer :: pyclass where
  "Serializer = \<lparr>cls_name = ''Serializer'', cls_dict = [], cls_base_fields = Some []\<rparr>"

text \<open>The two parts of the list that \<open>_get_declared_fields\<close> hands to \<open>OrderedDict\<close>: the
  items inherited from the bases, in the order of the bases, and the newly declared
  items.\<close>

definition declared_fields :: "'f heap \<Rightarrow> (string \<times> addr) list \<Rightarrow> (string \<times> addr) list" where
  "declared_fields h attrs =
     filter (\<lambda>(field_name, val). is_instance_or_subclass_Field (objects h val)) attrs"

definition inherited_fields :: "pyclass list \<Rightarrow> (string \<times> addr) list" where
  "inherited_fields bases =
     concat (map (\<lambda>b. case cls_base_fields b of Some bf \<Rightarrow> bf | None \<Rightarrow> []) bases)"

text \<open>An example heap: two field classes (13 and 15), four instances of them that have no
  \<open>parent\<close> of their own, and otherwise objects that are not fields.\<close>

definition example_heap :: "example_field heap" where
  "example_heap =
     \<lparr>objects = (\<lambda>a. if a = 10 then FieldInstance 13 Attr Absent
                     else if a = 11 then FieldInstance 13 Attr Absent
                     else if a = 12 then FieldInstance 15 Whole Absent
                     else if a = 13 then FieldClass Attr None
                     else if a = 15 then FieldClass Whole None
                     else if a = 16 then FieldInstance 15 Whole Absent
                     else OtherObject),
      next_addr = 17, next_sid = 0\<rparr>"

subsection \<open>Schema instances\<close>

text \<open>Allocation of a new object and of a new schema instance identifier.\<close>

definition alloc :: "'f pyobj \<Rightarrow> 'f heap \<Rightarrow> addr \<times> 'f heap" where
  "alloc obj h =
     (next_addr h,
      h\<lparr>objects := (objects h)(next_addr h := obj), next_addr := Suc (next_addr h)\<rparr>)"

definition new_sid :: "'f heap \<Rightarrow> sid \<times> 'f heap" where
  "new_sid h = (next_sid h, h\<lparr>next_sid := Suc (next_sid h)\<rparr>)"

text \<open>
  \<open>copy.deepcopy\<close>, as far as \<open>get_fields\<close> uses it. The memo maps every object that has
  been copied to its copy, so that an object reached twice is copied once.
  \<^item> A class is atomic for \<open>deepcopy\<close>: the copy of a class is the class itself.
  \<^item> An instance is reconstructed: a new object of the same class, without attributes
    of its own, is allocated and entered in the memo, then the state of the original is
    copied into it. The state of a field instance is its content (immutable values in
    this model) and its own \<open>parent\<close>, if it has one; the copy of a parent that is set is a
    new schema instance, the copy of \<open>None\<close> is \<open>None\<close>.
  \<^item> Any other object is copied as an instance without state.
  \<^item> An \<open>OrderedDict\<close> with string keys is copied item by item, in order.
\<close>

type_synonym memo = "(addr \<times> addr) list \<times> (sid \<times> sid) list"

definition deepcopy_sid :: "sid \<Rightarrow> memo \<Rightarrow> 'f heap \<Rightarrow> sid \<times> memo \<times> 'f heap" where
  "deepcopy_sid s memo h =
     (case map_of (snd memo) s of
        Some s' \<Rightarrow> (s', memo, h)
      | None \<Rightarrow> (let (s', h') = new_sid h in (s', (fst memo, (s, s') # snd memo), h')))"

definition deepcopy_obj :: "addr \<Rightarrow> memo \<Rightarrow> 'f heap \<Rightarrow> addr \<times> memo \<times> 'f heap" where
  "deepcopy_obj x memo h =
     (case map_of (fst memo) x of
        Some y \<Rightarrow> (y, memo, h)
      | None \<Rightarrow>
          (case objects h x of
             FieldClass f p \<Rightarrow> (x, memo, h)
           | OtherClass \<Rightarrow> (x, memo, h)
           | FieldInstance c f own \<Rightarrow>
               (let (y, h1) = alloc (FieldInstance c f Absent) h;
                    memo1 = ((x, y) # fst memo, snd memo)
                in (case own of
                      Absent \<Rightarrow> (y, memo1, h1)
                    | Own None \<Rightarrow>
                        (y, memo1, h1\<lparr>objects := (objects h1)(y := FieldInstance c f (Own None))\<rparr>)
                    | Own (Some s) \<Rightarrow>
                        (let (s', memo2, h2) = deepcopy_sid s memo1 h1
                         in (y, memo2,
                             h2\<lparr>objects :=
                                  (objects h2)(y := FieldInstance c f (Own (Some s')))\<rparr>))))
           | OtherObject \<Rightarrow>
               (let (y, h1) = alloc OtherObject h
                in (y, ((x, y) # fst memo, snd memo), h1))))"

fun deepcopy_items ::
  "(string \<times> addr) list \<Rightarrow> memo \<Rightarrow> 'f heap \<Rightarrow> (string \<times> addr) list \<times> memo \<times> 'f heap" where
  "deepcopy_items [] memo h = ([], memo, h)"
| "deepcopy_items ((k, x) # rest) memo h =
     (let (y, memo1, h1) = deepcopy_obj x memo h;
          (rest', memo2, h2) = deepcopy_items rest memo1 h1
      in ((k, y) # rest', memo2, h2))"

definition deepcopy_odict :: "(string, addr) odict \<Rightarrow> 'f heap \<Rightarrow> (string, addr) odict \<times> 'f heap"
  where
  "deepcopy_odict od h = (let (items, memo, h') = deepcopy_items od ([], []) h in (items, h'))"

text \<open>\<open>field_obj.parent\<close>: the attribute of a field class; on a field instance its own
  attribute, and the attribute of its class when it has none of its own. Any other
  object has no such attribute (\<open>_base_fields\<close> holds fields only).\<close>

fun getattr_parent :: "'f heap \<Rightarrow> 'f pyobj \<Rightarrow> exn + sid option" where
  "getattr_parent h (FieldClass f p) = Inr p"
| "getattr_parent h (FieldInstance c f (Own p)) = Inr p"
| "getattr_parent h (FieldInstance c f Absent) =
     (case objects h c of
        FieldClass g p \<Rightarrow> Inr p
      | FieldInstance c' g own \<Rightarrow> Inl AttributeError
      | OtherClass \<Rightarrow> Inl AttributeError
      | OtherObject \<Rightarrow> Inl AttributeError)"
| "getattr_parent h OtherClass = Inl AttributeError"
| "getattr_parent h OtherObject = Inl AttributeError"

text \<open>\<open>field_obj.parent = self\<close>: on a class the class attribute is set, on an instance
  its own attribute.\<close>

fun setattr_parent :: "'f pyobj \<Rightarrow> sid \<Rightarrow> 'f pyobj" where
  "setattr_parent (FieldClass f p) s = FieldClass f (Some s)"
| "setattr_parent (FieldInstance c f own) s = FieldInstance c f (Own (Some s))"
| "setattr_parent obj s = obj"

text \<open>The loop of \<open>get_fields\<close> over \<open>iteritems(base_fields)\<close>: \<open>not field_obj.parent\<close> holds
  when the parent is \<open>None\<close>; a schema instance is truthy.\<close>

fun set_parents :: "sid \<Rightarrow> (string \<times> addr) list \<Rightarrow> 'f heap \<Rightarrow> exn + 'f heap" where
  "set_parents self [] h = Inr h"
| "set_parents self ((field_name, field_obj) # rest) h =
     (case getattr_parent h (objects h field_obj) of
        Inl e \<Rightarrow> Inl e
      | Inr p \<Rightarrow>
          set_parents self rest
            (if p = None
             then h\<lparr>objects := (objects h)(field_obj := setattr_parent (objects h field_obj) self)\<rparr>
             else h))"

text \<open>\<open>BaseSerializer.get_fields(self)\<close>. \<open>self._base_fields\<close> is the attribute of the class of
  \<open>self\<close>; reading it raises \<open>AttributeError\<close> when the class has none.\<close>

definition get_fields :: "sid \<Rightarrow> pyclass \<Rightarrow> 'f heap \<Rightarrow> exn + ((string, addr) odict \<times> 'f heap)" where
  "get_fields self cls h =
     (case cls_base_fields cls of
        None \<Rightarrow> Inl AttributeError
      | Some bf \<Rightarrow>
          (let (base_fields, h1) = deepcopy_odict bf h
           in (case set_parents self base_fields h1 of
                 Inl e \<Rightarrow> Inl e
               | Inr h2 \<Rightarrow> Inr (base_fields, h2))))"

text \<open>A schema instance: its identifier, its class and its attributes \<open>_data\<close> and
  \<open>fields\<close>.\<close>

record serializer =
  ser_id :: sid
  ser_class :: pyclass
  ser_data :: pyval
  ser_fields :: "(string, addr) odict"

text \<open>\<open>cls(data)\<close>: a new instance is allocated and \<open>BaseSerializer.__init__(self, data)\<close>
  runs on it.\<close>

definition BaseSerializer_init :: "pyclass \<Rightarrow> pyval \<Rightarrow> 'f heap \<Rightarrow> exn + (serializer \<times> 'f heap)" where
  "BaseSerializer_init cls data h =
     (let (self, h0) = new_sid h
      in (case get_fields self cls h0 of
            Inl e \<Rightarrow> Inl e
          | Inr (flds, h1) \<Rightarrow>
              Inr (\<lparr>ser_id = self, ser_class = cls, ser_data = data, ser_fields = flds\<rparr>, h1)))"



text \<open>An example schema on the example heap, with the data of the example of the spec, and
  the \<open>output\<close> of the example fields: a field instance returns what \<open>example_output\<close>
  returns for its content, on a field class the call of \<open>output\<close> raises \<open>TypeError\<close> (an
  argument is missing).\<close>

definition person_schema :: pyclass where
  "person_schema =
     SerializerMeta_new example_heap ''Person'' [Serializer] [(''name'', 10), (''age'', 11)]"

definition person_data :: pyval where
  "person_data = PObject [(''name'', PStr ''Ada''), (''age'', PInt 36)]"




subsection \<open>The memo invariant and a schema with a field class\<close>

text \<open>A field instance that is allocated and on which \<open>parent\<close> reads \<open>None\<close>: its own
  \<open>parent\<close> is \<open>None\<close>, or it has none of its own and its class, which is allocated as
  well, has the parent \<open>None\<close>.\<close>

definition unbound_instance :: "'f heap \<Rightarrow> addr \<Rightarrow> bool" where
  "unbound_instance h x =
     (x < next_addr h \<and>
      (\<exists>c f own. objects h x = FieldInstance c f own \<and>
         (own = Own None \<or>
          own = Absent \<and> c < next_addr h \<and> (\<exists>g. objects h c = FieldClass g None))))"

text \<open>The invariant of the memo during the copy of a template whose objects all lie below
  \<open>n0\<close>: every copy is a new object, equal to the object it was copied from.\<close>

definition copies_ok :: "addr \<Rightarrow> 'f heap \<Rightarrow> (addr \<times> addr) list \<Rightarrow> bool" where
  "copies_ok n0 h m =
     (\<forall>(x, y) \<in> set m. x < n0 \<and> n0 \<le> y \<and> y < next_addr h \<and> objects h y = objects h x)"

text \<open>A schema whose only field is declared as a field class, the two instances that are
  constructed from it one after the other on the example heap, and an instance of the
  example schema that is constructed after them.\<close>

definition field_class_schema :: pyclass where
  "field_class_schema = SerializerMeta_new example_heap ''C'' [Serializer] [(''f'', 13)]"

definition instance1 :: serializer where
  "instance1 = \<lparr>ser_id = 0, ser_class = field_class_schema, ser_data = PNone,
                 ser_fields = [(''f'', 13)]\<rparr>"

definition heap1 :: "example_field heap" where
  "heap1 = example_heap\<lparr>objects := (objects example_heap)(13 := FieldClass Attr (Some 0)),
                        next_sid := 1\<rparr>"

definition instance2 :: serializer where
  "instance2 = \<lparr>ser_id = 1, ser_class = field_class_schema, ser_data = PNone,
                 ser_fields = [(''f'', 13)]\<rparr>"

definition heap2 :: "example_field heap" where
  "heap2 = heap1\<lparr>next_sid := 2\<rparr>"

definition person3 :: serializer where
  "person3 = \<lparr>ser_id = 2, ser_class = person_schema, ser_data = person_data,
               ser_fields = [(''name'', 17), (''age'', 18)]\<rparr>"

definition heap3 :: "example_field heap" where
  "heap3 = heap2\<lparr>objects := (objects heap2)
                    (17 := FieldInstance 13 Attr Absent, 18 := FieldInstance 13 Attr Absent),
                 next_addr := 19, next_sid := 3\<rparr>"

subsection \<open>A schema that declares inherited names again\<close>





subsection \<open>The result for an input\<close>


subsection \<open>validate.email\<close>

text \<open>Modelled from the spec: the accepted email shape of \<open>validate.email\<close>
  (\<open>marshmallow/validate.py\<close> is not among the sources; only its test is). The
  shape is coarse: a non-empty local part, exactly one \<open>@\<close> and after it a non-empty domain that
  contains the separator \<open>.\<close>.\<close>

definition email_shape :: "string \<Rightarrow> bool" where
  "email_shape v =
     (let local_part = takeWhile (\<lambda>c. c \<noteq> CHR ''@'') v;
          rest = dropWhile (\<lambda>c. c \<noteq> CHR ''@'') v
      in local_part \<noteq> [] \<and> rest \<noteq> [] \<and> tl rest \<noteq> []
         \<and> CHR ''@'' \<notin> set (tl rest) \<and> CHR ''.'' \<in> set (tl rest))"

text \<open>Modelled from the spec: \<open>validate_email(value)\<close> returns its input unchanged when
  it has the accepted shape and raises \<open>ValidationError\<close> when not.\<close>

definition validate_email :: "string \<Rightarrow> exn + string" where
  "validate_email v = (if email_shape v then Inr v else Inl ValidationError)"

section \<open>Iteration\<close>


declare marshal.simps(1) [simp del]

section \<open>Results in sequence\<close>

lemma sequence_results_map_Inr: "sequence_results (map Inr xs) = Inr xs"
  by (induction xs) simp_all

lemma sequence_results_Inr:
  "sequence_results rs = Inr xs \<longleftrightarrow> rs = map Inr xs"
proof
  show "sequence_results rs = Inr xs \<Longrightarrow> rs = map Inr xs"
    by (induction rs arbitrary: xs) (auto split: sum.splits)
qed (simp add: sequence_results_map_Inr)

lemma marshal_each_eq:
  "marshal_each out ds flds = sequence_results (map (\<lambda>d. marshal out d flds) ds)"
  by (induction ds) (simp_all split: sum.splits)

lemma marshal_items_eq:
  "marshal_items out data flds =
     sequence_results (map (\<lambda>(k, v).
        case (case v of Nested m \<Rightarrow> marshal out data m
                      | Leaf f \<Rightarrow> (case out f k data of
                                    Inl e \<Rightarrow> Inl e
                                  | Inr x \<Rightarrow> Inr (Output x))) of
          Inl e \<Rightarrow> Inl e
        | Inr r \<Rightarrow> Inr (k, r)) flds)"
  by (induction flds) (auto split: sum.splits fspec.splits)

section \<open>Properties of OrderedDict\<close>

lemma od_setitem_new:
  "k \<notin> fst ` set od \<Longrightarrow> od_setitem od k v = od @ [(k, v)]"
  by (induction od) auto

lemma foldl_od_setitem_distinct:
  "distinct (map fst (od @ ps)) \<Longrightarrow>
   foldl (\<lambda>od (k, v). od_setitem od k v) od ps = od @ ps"
proof (induction ps arbitrary: od)
  case Nil
  then show ?case by simp
next
  case (Cons p ps)
  obtain k v where p: "p = (k, v)" by (cases p)
  from Cons.prems p have "k \<notin> fst ` set od" by auto
  then have "od_setitem od k v = od @ [(k, v)]" by (rule od_setitem_new)
  moreover from Cons.prems p have "distinct (map fst ((od @ [(k, v)]) @ ps))" by simp
  ultimately show ?case using Cons.IH [of "od @ [(k, v)]"] p by simp
qed

lemma OrderedDict_distinct:
  "distinct (map fst ps) \<Longrightarrow> OrderedDict ps = ps"
  using foldl_od_setitem_distinct [of "[]" ps] by (simp add: OrderedDict_def)

section \<open>Sequence distribution\<close>

text \<open>
  Claim C2: for every list of input values \<open>vs\<close> (also the empty one) and every field
  mapping, \<open>marshal(vs, fields)\<close> is the list of the results \<open>marshal(v, fields)\<close> of
  the elements, in the same order; an exception raised for an element is the outcome
  of the whole call (the first one, from left to right).
\<close>

theorem marshal_list_distributes:
  "marshal out (PList vs) flds =
     (case sequence_results (map (\<lambda>v. marshal out v flds) vs) of
        Inl e \<Rightarrow> Inl e
      | Inr rs \<Rightarrow> Inr (RList rs))
   \<and> (marshal out (PList vs) flds = Inr r \<longleftrightarrow>
        (\<exists>rs. r = RList rs \<and> map (\<lambda>v. marshal out v flds) vs = map Inr rs))"
proof -
  have eq: "marshal out (PList vs) flds =
     (case sequence_results (map (\<lambda>v. marshal out v flds) vs) of
        Inl e \<Rightarrow> Inl e
      | Inr rs \<Rightarrow> Inr (RList rs))"
    by (simp add: marshal.simps(1) [of out "PList vs"] is_iterable_but_not_string_def
        marshal_each_eq)
  have "marshal out (PList vs) flds = Inr r \<longleftrightarrow>
        (\<exists>rs. r = RList rs \<and> map (\<lambda>v. marshal out v flds) vs = map Inr rs)"
    unfolding eq
    by (auto simp: sequence_results_Inr sequence_results_map_Inr split: sum.splits)
  with eq show ?thesis by blast
qed

theorem marshal_list_distributes_witness:
  "marshal example_output
     (PList [PObject [(''name'', PStr ''Ada'')], PObject [(''name'', PStr ''Bob'')]])
     [(''name'', Leaf Attr)]
   = Inr (RList [ODict [(''name'', Output (PStr ''Ada''))],
                 ODict [(''name'', Output (PStr ''Bob''))]])
   \<and> marshal example_output (PList []) [(''name'', Leaf Attr)] = Inr (RList [])"
  using marshal_list_distributes [of example_output
      "[PObject [(''name'', PStr ''Ada'')], PObject [(''name'', PStr ''Bob'')]]"
      "[(''name'', Leaf Attr)]"]
    marshal_list_distributes [of example_output "[]" "[(''name'', Leaf Attr)]"]
  by (simp add: marshal.simps(1) is_iterable_but_not_string_def OrderedDict_def)

section \<open>Mappings are iterated by key\<close>

text \<open>
  Claim C9: a dict passed as \<open>data\<close> is treated as the iterable of its keys:
  \<open>marshal\<close> returns the list of \<open>marshal(key, fields)\<close> for the keys in iteration
  order (the first exception, if one is raised), and never one ordered mapping for the
  dict itself.
\<close>

theorem marshal_dict_iterates_keys:
  "marshal out (PDict kvs) flds =
     (case sequence_results (map (\<lambda>key. marshal out key flds) (map fst kvs)) of
        Inl e \<Rightarrow> Inl e
      | Inr rs \<Rightarrow> Inr (RList rs))
   \<and> marshal out (PDict kvs) flds \<noteq> Inr (ODict items)"
  by (simp add: marshal.simps(1) [of out "PDict kvs"] is_iterable_but_not_string_def
        marshal_each_eq split: sum.splits)

theorem marshal_dict_iterates_keys_witness:
  "marshal example_output (PDict [(PStr ''name'', PStr ''Ada''), (PStr ''age'', PInt 36)])
     [(''name'', Leaf Whole)]
   = Inr (RList [ODict [(''name'', Output (PStr ''name''))],
                 ODict [(''name'', Output (PStr ''age''))]])"
  using marshal_dict_iterates_keys [of example_output
      "[(PStr ''name'', PStr ''Ada''), (PStr ''age'', PInt 36)]" "[(''name'', Leaf Whole)]"]
  by (simp add: marshal.simps(1) is_iterable_but_not_string_def OrderedDict_def)

section \<open>Strings are scalars\<close>

lemma marshal_items_flat:
  "marshal_items out data (flat fs) =
     (case sequence_results (map (\<lambda>(k, f). out f k data) fs) of
        Inl e \<Rightarrow> Inl e
      | Inr xs \<Rightarrow> Inr (zip (map fst fs) (map Output xs)))"
  by (induction fs) (auto simp: flat_def split: sum.splits)

text \<open>
  Claim C4: a string passed as \<open>data\<close> is a scalar source object. \<open>marshal\<close> returns one
  ordered mapping, built from the items that the fields produce for the whole string:
  a nested mapping is marshalled against the whole string, any other field has its
  \<open>output\<close> called with the whole string. The result is never a list: \<open>marshal\<close> does
  not distribute over the characters.
\<close>

theorem marshal_string_is_scalar:
  fixes out :: "'x \<Rightarrow> string \<Rightarrow> pyval \<Rightarrow> exn + 'v"
  shows "marshal out (PStr s) flds =
     (case marshal_items out (PStr s) flds of
        Inl e \<Rightarrow> Inl e
      | Inr items \<Rightarrow> Inr (ODict (OrderedDict items)))
   \<and> marshal_items out (PStr s) flds =
       sequence_results (map (\<lambda>(k, v).
         case (case v of Nested m \<Rightarrow> marshal out (PStr s) m
                       | Leaf f \<Rightarrow> (case out f k (PStr s) of
                                     Inl e \<Rightarrow> Inl e
                                   | Inr x \<Rightarrow> Inr (Output x))) of
           Inl e \<Rightarrow> Inl e
         | Inr r \<Rightarrow> Inr (k, r)) flds)
   \<and> marshal out (PStr s) (flat fs) =
       (case sequence_results (map (\<lambda>(k, f). out f k (PStr s)) fs) of
          Inl e \<Rightarrow> Inl e
        | Inr xs \<Rightarrow> Inr (ODict (OrderedDict (zip (map fst fs) (map Output xs)))))
   \<and> marshal out (PStr s) flds \<noteq> Inr (RList rs)"
proof -
  have m: "marshal out (PStr s) flds =
     (case marshal_items out (PStr s) flds of
        Inl e \<Rightarrow> Inl e
      | Inr items \<Rightarrow> Inr (ODict (OrderedDict items)))" for flds :: "(string \<times> 'x fspec) list"
    by (simp add: marshal.simps(1) [of out "PStr s"] is_iterable_but_not_string_def)
  have "marshal out (PStr s) flds \<noteq> Inr (RList rs)"
    unfolding m by (simp split: sum.splits)
  moreover have "marshal out (PStr s) (flat fs) =
       (case sequence_results (map (\<lambda>(k, f). out f k (PStr s)) fs) of
          Inl e \<Rightarrow> Inl e
        | Inr xs \<Rightarrow> Inr (ODict (OrderedDict (zip (map fst fs) (map Output xs)))))"
    unfolding m marshal_items_flat by (simp split: sum.splits)
  ultimately show ?thesis using m [of flds] marshal_items_eq [of out "PStr s" flds]
    by blast
qed

theorem marshal_string_is_scalar_witness:
  "marshal example_output (PStr ''ab'') (flat [(''x'', Whole), (''y'', Whole)])
     = Inr (ODict [(''x'', Output (PStr ''ab'')), (''y'', Output (PStr ''ab''))])"
  using marshal_string_is_scalar [of example_output "''ab''" "flat [(''x'', Whole), (''y'', Whole)]"
      "[(''x'', Whole), (''y'', Whole)]" "[]"]
  by (simp add: OrderedDict_def flat_def)

section \<open>Nested mappings\<close>

lemma marshal_items_keys:
  "marshal_items out data flds = Inr items \<Longrightarrow> map fst items = map fst flds"
  by (induction flds arbitrary: items) (auto split: sum.splits)

lemma marshal_items_nested:
  "marshal_items out data flds = Inr items \<Longrightarrow> (k, Nested m) \<in> set flds \<Longrightarrow>
   \<exists>r. (k, r) \<in> set items \<and> marshal out data m = Inr r"
  by (induction flds arbitrary: items) (auto split: sum.splits)

lemma marshal_items_leaf:
  "marshal_items out data flds = Inr items \<Longrightarrow> (k, Leaf f) \<in> set flds \<Longrightarrow>
   \<exists>x. (k, Output x) \<in> set items \<and> out f k data = Inr x"
  by (induction flds arbitrary: items) (auto split: sum.splits)

text \<open>
  Claim C5: for \<open>data\<close> that is not iterated and a field mapping with an item
  \<open>(name, m)\<close> where \<open>m\<close> is itself a field mapping, the result of \<open>marshal\<close> holds at
  the key \<open>name\<close> the result of \<open>marshal(data, m)\<close> for the same \<open>data\<close>, not for an
  attribute of \<open>data\<close>.
\<close>

theorem marshal_nested_same_data:
  assumes "\<not> is_iterable_but_not_string data"
    and "(name, Nested m) \<in> set flds"
    and "distinct (map fst flds)"
    and "marshal out data flds = Inr r"
  shows "\<exists>items r'. r = ODict items \<and> map_of items name = Some r'
           \<and> marshal out data m = Inr r'"
proof -
  from assms(1,4) obtain items where items: "marshal_items out data flds = Inr items"
    and r: "r = ODict (OrderedDict items)"
    by (auto simp: marshal.simps(1) [of out data flds] split: sum.splits)
  from items have keys: "map fst items = map fst flds" by (rule marshal_items_keys)
  with assms(3) have d: "distinct (map fst items)" by simp
  then have od: "OrderedDict items = items" by (rule OrderedDict_distinct)
  from marshal_items_nested [OF items assms(2)] obtain r'
    where "(name, r') \<in> set items" and m: "marshal out data m = Inr r'" by blast
  with d have "map_of items name = Some r'" by simp
  with r od m show ?thesis by simp
qed

theorem marshal_nested_same_data_witness:
  "\<not> is_iterable_but_not_string (PObject [(''name'', PStr ''Ada''), (''address'', PStr ''x'')])
   \<and> (''address'', Nested [(''name'', Leaf Attr)])
       \<in> set [(''name'', Leaf Attr), (''address'', Nested [(''name'', Leaf Attr)])]
   \<and> distinct (map fst [(''name'', Leaf Attr), (''address'', Nested [(''name'', Leaf Attr)])])
   \<and> marshal example_output (PObject [(''name'', PStr ''Ada''), (''address'', PStr ''x'')])
        [(''name'', Leaf Attr), (''address'', Nested [(''name'', Leaf Attr)])]
      = Inr (ODict [(''name'', Output (PStr ''Ada'')),
                    (''address'', ODict [(''name'', Output (PStr ''Ada''))])])
   \<and> (\<exists>items r'.
         ODict [(''name'', Output (PStr ''Ada'')),
                (''address'', ODict [(''name'', Output (PStr ''Ada''))])] = ODict items
         \<and> map_of items ''address'' = Some r'
         \<and> marshal example_output (PObject [(''name'', PStr ''Ada''), (''address'', PStr ''x'')])
              [(''name'', Leaf Attr)] = Inr r')"
proof -
  let ?d = "PObject [(''name'', PStr ''Ada''), (''address'', PStr ''x'')]"
  let ?fs = "[(''name'', Leaf Attr), (''address'', Nested [(''name'', Leaf Attr)])]"
  let ?r = "ODict [(''name'', Output (PStr ''Ada'')),
                (''address'', ODict [(''name'', Output (PStr ''Ada''))])]"
  have h1: "\<not> is_iterable_but_not_string ?d" by (simp add: is_iterable_but_not_string_def)
  have h2: "(''address'', Nested [(''name'', Leaf Attr)]) \<in> set ?fs" by simp
  have h3: "distinct (map fst ?fs)" by simp
  have h4: "marshal example_output ?d ?fs = Inr ?r"
    by (simp add: marshal.simps(1) is_iterable_but_not_string_def OrderedDict_def)
  from marshal_nested_same_data [OF h1 h2 h3 h4] h1 h2 h3 h4 show ?thesis by blast
qed

section \<open>The order of the keys of an OrderedDict\<close>

lemma od_setitem_keys:
  "map fst (od_setitem od k v) =
     (if k \<in> set (map fst od) then map fst od else map fst od @ [k])"
  by (induction od) (auto simp: rev_image_eqI)

lemma od_setitem_map_of:
  "map_of (od_setitem od k v) = (map_of od)(k \<mapsto> v)"
  by (induction od) (auto simp: fun_eq_iff)

lemma removeAll_filter: "removeAll x (filter P xs) = filter (\<lambda>y. y \<noteq> x \<and> P y) xs"
  by (induction xs) auto

lemma foldl_od_setitem_keys:
  "map fst (foldl (\<lambda>od (k, v). od_setitem od k v) od ps) =
   map fst od @ first_occurrences (filter (\<lambda>k. k \<notin> set (map fst od)) (map fst ps))"
proof (induction ps arbitrary: od)
  case Nil
  then show ?case by simp
next
  case (Cons p ps)
  obtain k v where p: "p = (k, v)" by (cases p)
  show ?case
  proof (cases "k \<in> set (map fst od)")
    case True
    then have "map fst (od_setitem od k v) = map fst od"
      by (simp add: od_setitem_keys)
    with True show ?thesis
      using Cons.IH [of "od_setitem od k v"] p by simp
  next
    case False
    then have "map fst (od_setitem od k v) = map fst od @ [k]"
      by (simp add: od_setitem_keys)
    with False show ?thesis
      using Cons.IH [of "od_setitem od k v"] p
      by (simp add: removeAll_filter)
  qed
qed

lemma OrderedDict_keys: "map fst (OrderedDict ps) = first_occurrences (map fst ps)"
  using foldl_od_setitem_keys [of "[]" ps] by (simp add: OrderedDict_def)

lemma foldl_od_setitem_map_of:
  "map_of (foldl (\<lambda>od (k, v). od_setitem od k v) od ps) = map_of od ++ map_of (rev ps)"
proof (induction ps arbitrary: od)
  case Nil
  then show ?case by simp
next
  case (Cons p ps)
  obtain k v where p: "p = (k, v)" by (cases p)
  show ?case using Cons.IH [of "od_setitem od k v"] p
    by (simp add: od_setitem_map_of map_add_upd_left fun_eq_iff map_add_def split: option.splits)
qed

lemma OrderedDict_map_of: "map_of (OrderedDict ps) = map_of (rev ps)"
  using foldl_od_setitem_map_of [of "[]" ps] by (simp add: OrderedDict_def)

lemma set_first_occurrences: "set (first_occurrences xs) = set xs"
  by (induction xs rule: first_occurrences.induct) auto

lemma distinct_first_occurrences: "distinct (first_occurrences xs)"
  by (induction xs rule: first_occurrences.induct) (auto simp: set_first_occurrences)

lemma first_occurrences_distinct: "distinct xs \<Longrightarrow> first_occurrences xs = xs"
  by (induction xs) auto

lemma first_occurrences_append:
  "first_occurrences (xs @ ys) =
     first_occurrences xs @ first_occurrences (filter (\<lambda>y. y \<notin> set xs) ys)"
proof (induction xs arbitrary: ys rule: first_occurrences.induct)
  case 1
  then show ?case by simp
next
  case (2 x xs)
  have "filter (\<lambda>y. y \<notin> set (removeAll x xs)) (removeAll x ys)
        = filter (\<lambda>y. y \<notin> set (x # xs)) ys"
    by (induction ys) auto
  with "2.IH" [of "removeAll x ys"] show ?case by simp
qed

lemma OrderedDict_distinct_keys: "distinct (map fst (OrderedDict ps))"
  by (simp add: OrderedDict_keys distinct_first_occurrences)

section \<open>Schema compilation\<close>

lemma foldl_prepend_bases:
  "foldl (\<lambda>declared base_class.
            case cls_base_fields base_class of
              Some base_fields \<Rightarrow> base_fields @ declared
            | None \<Rightarrow> declared) declared (rev bases)
   = inherited_fields bases @ declared"
  by (induction bases arbitrary: declared) (auto simp: inherited_fields_def split: option.splits)

lemma get_declared_fields_eq:
  "fst (get_declared_fields h bases attrs) =
     OrderedDict (inherited_fields bases @ declared_fields h attrs)"
  by (simp add: get_declared_fields_def declared_fields_def foldl_prepend_bases Let_def)

lemma Serializer_is_compiled:
  "SerializerMeta_new h ''Serializer'' [SerializerMeta_new h ''NewBase'' [BaseSerializer] []] []
     = Serializer"
  by (simp add: SerializerMeta_new_def get_declared_fields_def Serializer_def BaseSerializer_def
      OrderedDict_def)

lemma cls_base_fields_SerializerMeta_new:
  "cls_base_fields (SerializerMeta_new h name bases attrs) =
     Some (OrderedDict (inherited_fields bases @ declared_fields h attrs))"
  using get_declared_fields_eq [of h bases attrs]
  by (auto simp: SerializerMeta_new_def split: prod.splits)

lemma example_heap_fields:
  "is_instance_or_subclass_Field (objects example_heap 10)"
  "is_instance_or_subclass_Field (objects example_heap 11)"
  "is_instance_or_subclass_Field (objects example_heap 12)"
  "is_instance_or_subclass_Field (objects example_heap 13)"
  "\<not> is_instance_or_subclass_Field (objects example_heap 14)"
  by (simp_all add: example_heap_def is_instance_or_subclass_Field_def)

section \<open>Inheritance ordering\<close>

text \<open>
  Claim C3: when schema \<open>A\<close> declares the fields \<open>a1\<close>, \<open>a2\<close> and schema \<open>B\<close> extends \<open>A\<close>
  and declares \<open>b1\<close>, all names distinct, the compiled field mapping of \<open>B\<close> is
  \<open>a1\<close>, \<open>a2\<close>, \<open>b1\<close>: the fields of \<open>A\<close> in their order, then the field of \<open>B\<close>.
\<close>

theorem inheritance_order:
  assumes "declared_fields hA attrsA = [(a1, x1), (a2, x2)]"
    and "declared_fields hB attrsB = [(b1, y1)]"
    and "distinct [a1, a2, b1]"
  shows "cls_base_fields
           (SerializerMeta_new hB nameB [SerializerMeta_new hA nameA [Serializer] attrsA] attrsB)
         = Some [(a1, x1), (a2, x2), (b1, y1)]"
proof -
  let ?A = "SerializerMeta_new hA nameA [Serializer] attrsA"
  have "distinct (map fst [(a1, x1), (a2, x2)])" using assms(3) by simp
  then have A: "cls_base_fields ?A = Some [(a1, x1), (a2, x2)]"
    using OrderedDict_distinct [of "[(a1, x1), (a2, x2)]"]
    by (simp add: cls_base_fields_SerializerMeta_new inherited_fields_def Serializer_def assms(1))
  have "distinct (map fst [(a1, x1), (a2, x2), (b1, y1)])" using assms(3) by simp
  then have "OrderedDict [(a1, x1), (a2, x2), (b1, y1)] = [(a1, x1), (a2, x2), (b1, y1)]"
    by (rule OrderedDict_distinct)
  moreover have "inherited_fields [?A] = [(a1, x1), (a2, x2)]"
    using A by (simp add: inherited_fields_def)
  ultimately show ?thesis
    using cls_base_fields_SerializerMeta_new [of hB nameB "[?A]" attrsB]
    by (simp add: assms(2))
qed

theorem inheritance_order_witness:
  "declared_fields example_heap [(''a1'', 10), (''helper'', 14), (''a2'', 11)]
     = [(''a1'', 10), (''a2'', 11)]
   \<and> declared_fields example_heap [(''b1'', 12)] = [(''b1'', 12)]
   \<and> distinct [''a1'', ''a2'', ''b1'']
   \<and> cls_base_fields
        (SerializerMeta_new example_heap ''B''
           [SerializerMeta_new example_heap ''A'' [Serializer]
              [(''a1'', 10), (''helper'', 14), (''a2'', 11)]]
           [(''b1'', 12)])
      = Some [(''a1'', 10), (''a2'', 11), (''b1'', 12)]"
proof -
  have h1: "declared_fields example_heap [(''a1'', 10), (''helper'', 14), (''a2'', 11)]
     = [(''a1'', 10), (''a2'', 11)]"
    by (simp add: declared_fields_def example_heap_fields)
  have h2: "declared_fields example_heap [(''b1'', 12)] = [(''b1'', 12)]"
    by (simp add: declared_fields_def example_heap_fields)
  have h3: "distinct [''a1'', ''a2'', ''b1'']" by simp
  from inheritance_order [OF h1 h2 h3] h1 h2 h3 show ?thesis by blast
qed

section \<open>Repeated names\<close>

text \<open>
  Claim C7: when a name occurs more than once in the list of inherited and declared
  items, the compiled mapping binds it to the value of its last occurrence, at the
  position of its first occurrence: the keys of the mapping are the names in the order
  of their first occurrences, and the name stands at the index that is the number of
  different names before its first occurrence.
\<close>

theorem duplicate_name_latest_value_earliest_position:
  assumes "inherited_fields bases @ declared_fields h attrs
             = xs @ (name, v1) # ys @ (name, v2) # zs"
    and "name \<notin> set (map fst xs)"
    and "name \<notin> set (map fst zs)"
  shows "map fst (fst (get_declared_fields h bases attrs))
           = first_occurrences (map fst (inherited_fields bases @ declared_fields h attrs))
       \<and> map_of (fst (get_declared_fields h bases attrs)) name = Some v2
       \<and> fst (get_declared_fields h bases attrs) ! length (first_occurrences (map fst xs))
           = (name, v2)
       \<and> length (first_occurrences (map fst xs))
           < length (fst (get_declared_fields h bases attrs))"
proof -
  let ?ps = "inherited_fields bases @ declared_fields h attrs"
  let ?bf = "fst (get_declared_fields h bases attrs)"
  let ?n = "length (first_occurrences (map fst xs))"
  have bf: "?bf = OrderedDict ?ps" by (rule get_declared_fields_eq)
  then have keys: "map fst ?bf = first_occurrences (map fst ?ps)"
    by (simp only: OrderedDict_keys)
  have "map_of ?bf name = map_of (rev ?ps) name"
    by (simp only: bf OrderedDict_map_of)
  also have "\<dots> = Some v2"
    using assms(3) unfolding assms(1)
    by (simp add: map_add_def map_of_eq_None_iff [THEN iffD2] rev_image_eqI
        split: option.splits)
  finally have val: "map_of ?bf name = Some v2" .
  have "first_occurrences (map fst ?ps)
          = first_occurrences (map fst xs) @
            name # first_occurrences (removeAll name
              (filter (\<lambda>y. y \<notin> set (map fst xs)) (map fst (ys @ (name, v2) # zs))))"
    unfolding assms(1) using assms(2) by (simp add: first_occurrences_append)
  with keys have nth: "map fst ?bf ! ?n = name" and len: "?n < length (map fst ?bf)"
    by (simp_all add: nth_append)
  from len have len': "?n < length ?bf" by simp
  then have mem: "?bf ! ?n \<in> set ?bf" by simp
  from nth len' have "fst (?bf ! ?n) = name" by simp
  then obtain v where v: "?bf ! ?n = (name, v)" by (cases "?bf ! ?n") simp
  have "distinct (map fst ?bf)" by (simp only: bf OrderedDict_distinct_keys)
  with mem v have "map_of ?bf name = Some v" by simp
  with val v have "?bf ! ?n = (name, v2)" by simp
  with keys val len' show ?thesis by blast
qed

theorem duplicate_name_latest_value_earliest_position_witness:
  "inherited_fields [SerializerMeta_new example_heap ''A'' [Serializer] [(''a1'', 10), (''a2'', 11)]]
       @ declared_fields example_heap [(''a1'', 12)]
     = [] @ (''a1'', 10) # [(''a2'', 11)] @ (''a1'', 12) # []
   \<and> ''a1'' \<notin> set (map fst ([] :: (string \<times> addr) list))
   \<and> fst (get_declared_fields example_heap
         [SerializerMeta_new example_heap ''A'' [Serializer] [(''a1'', 10), (''a2'', 11)]]
         [(''a1'', 12)])
      = [(''a1'', 12), (''a2'', 11)]
   \<and> map_of (fst (get_declared_fields example_heap
         [SerializerMeta_new example_heap ''A'' [Serializer] [(''a1'', 10), (''a2'', 11)]]
         [(''a1'', 12)])) ''a1'' = Some 12
   \<and> fst (get_declared_fields example_heap
         [SerializerMeta_new example_heap ''A'' [Serializer] [(''a1'', 10), (''a2'', 11)]]
         [(''a1'', 12)]) ! length (first_occurrences (map fst ([] :: (string \<times> addr) list)))
      = (''a1'', 12)"
proof -
  let ?A = "SerializerMeta_new example_heap ''A'' [Serializer] [(''a1'', 10), (''a2'', 11)]"
  have A: "cls_base_fields ?A = Some [(''a1'', 10), (''a2'', 11)]"
    by (simp add: cls_base_fields_SerializerMeta_new inherited_fields_def Serializer_def
        declared_fields_def example_heap_fields OrderedDict_def)
  have h1: "inherited_fields [?A] @ declared_fields example_heap [(''a1'', 12)]
     = [] @ (''a1'', 10) # [(''a2'', 11)] @ (''a1'', 12) # []"
    by (simp add: inherited_fields_def A declared_fields_def example_heap_fields)
  have h2: "''a1'' \<notin> set (map fst ([] :: (string \<times> addr) list))" by simp
  have e: "fst (get_declared_fields example_heap [?A] [(''a1'', 12)])
      = [(''a1'', 12), (''a2'', 11)]"
    unfolding get_declared_fields_eq h1 by (simp add: OrderedDict_def)
  from duplicate_name_latest_value_earliest_position [OF h1 h2 h2] h1 h2 e
  show ?thesis by simp
qed

text \<open>
  Claim C6, as stated, says that a field of \<open>B\<close> with the name of an inherited field is
  placed after all other fields. It is not: with \<open>A\<close> declaring \<open>a1\<close>, \<open>a2\<close> and \<open>B\<close>
  declaring \<open>a1\<close> again, the compiled mapping of \<open>B\<close> is \<open>a1\<close>, \<open>a2\<close>, with \<open>a1\<close> bound to
  the field of \<open>B\<close>.
\<close>

theorem redeclared_field_appended_counterexample:
  "cls_base_fields
     (SerializerMeta_new example_heap ''B''
        [SerializerMeta_new example_heap ''A'' [Serializer] [(''a1'', 10), (''a2'', 11)]]
        [(''a1'', 12)])
   = Some [(''a1'', 12), (''a2'', 11)]
   \<and> last (map fst [(''a1'', 12 :: addr), (''a2'', 11)]) \<noteq> ''a1''"
proof -
  let ?A = "SerializerMeta_new example_heap ''A'' [Serializer] [(''a1'', 10), (''a2'', 11)]"
  have A: "cls_base_fields ?A = Some [(''a1'', 10), (''a2'', 11)]"
    by (simp add: cls_base_fields_SerializerMeta_new inherited_fields_def Serializer_def
        declared_fields_def example_heap_fields OrderedDict_def)
  have "inherited_fields [?A] = [(''a1'', 10), (''a2'', 11)]"
    by (simp add: inherited_fields_def A)
  then show ?thesis
    by (simp add: cls_base_fields_SerializerMeta_new [of example_heap "''B''" "[?A]"]
        declared_fields_def example_heap_fields OrderedDict_def)
qed

text \<open>
  Claim C6, amended: when \<open>B\<close> extends \<open>A\<close> and declares a field with the name of a field
  inherited from \<open>A\<close>, the compiled mapping of \<open>B\<close> keeps the name at the position it has
  in the mapping of \<open>A\<close> and binds it to the field that \<open>B\<close> declares; the keys of the
  mapping of \<open>B\<close> are the keys of \<open>A\<close>, in their order, followed by the names that only
  \<open>B\<close> declares.
\<close>

theorem redeclared_field_keeps_position:
  assumes "(name, v) \<in> set (declared_fields hB attrsB)"
    and "distinct (map fst attrsB)"
    and "map_of bfA name = Some u"
    and "cls_base_fields (SerializerMeta_new hA nameA basesA attrsA) = Some bfA"
  shows "\<exists>bfB. cls_base_fields
                 (SerializerMeta_new hB nameB [SerializerMeta_new hA nameA basesA attrsA] attrsB)
               = Some bfB
           \<and> map fst bfB = map fst bfA @
                filter (\<lambda>k. k \<notin> set (map fst bfA)) (map fst (declared_fields hB attrsB))
           \<and> map_of bfB name = Some v
           \<and> (\<exists>i < length bfA. bfA ! i = (name, u) \<and> bfB ! i = (name, v))"
proof -
  let ?A = "SerializerMeta_new hA nameA basesA attrsA"
  let ?dB = "declared_fields hB attrsB"
  let ?bfB = "OrderedDict (bfA @ ?dB)"
  have bfA: "bfA = OrderedDict (inherited_fields basesA @ declared_fields hA attrsA)"
    using assms(4) by (simp add: cls_base_fields_SerializerMeta_new)
  then have dA: "distinct (map fst bfA)" by (simp only: OrderedDict_distinct_keys)
  have dB: "distinct (map fst ?dB)"
    using assms(2) unfolding declared_fields_def by (rule distinct_map_filter)
  have "inherited_fields [?A] = bfA"
    by (simp add: inherited_fields_def assms(4))
  then have B: "cls_base_fields (SerializerMeta_new hB nameB [?A] attrsB) = Some ?bfB"
    using cls_base_fields_SerializerMeta_new [of hB nameB "[?A]" attrsB] by simp
  have "distinct (filter (\<lambda>k. k \<notin> set (map fst bfA)) (map fst ?dB))"
    using dB by simp
  then have keys: "map fst ?bfB = map fst bfA @
      filter (\<lambda>k. k \<notin> set (map fst bfA)) (map fst ?dB)"
    using dA by (simp add: OrderedDict_keys first_occurrences_append first_occurrences_distinct)
  have "distinct (map fst (rev ?dB))" using dB by (metis distinct_rev rev_map)
  moreover have "(name, v) \<in> set (rev ?dB)" using assms(1) by simp
  ultimately have "map_of (rev ?dB) name = Some v" by (rule map_of_is_SomeI)
  then have val: "map_of ?bfB name = Some v"
    by (simp add: OrderedDict_map_of map_add_def)
  from assms(3) have "(name, u) \<in> set bfA" by (rule map_of_SomeD)
  then obtain i where i: "i < length bfA" "bfA ! i = (name, u)"
    by (auto simp: in_set_conv_nth)
  with keys have "map fst ?bfB ! i = name"
    by (metis fst_conv length_map nth_append nth_map)
  moreover from i keys have len: "i < length ?bfB"
    by (metis length_map length_append trans_less_add1)
  ultimately have "fst (?bfB ! i) = name" by simp
  then obtain w where w: "?bfB ! i = (name, w)" by (cases "?bfB ! i") simp
  with len have "(name, w) \<in> set ?bfB" by (metis nth_mem)
  with OrderedDict_distinct_keys [of "bfA @ ?dB"] have "map_of ?bfB name = Some w" by simp
  with val w have "?bfB ! i = (name, v)" by simp
  with B keys val i show ?thesis by blast
qed

theorem redeclared_field_keeps_position_witness:
  "(''a1'', 12) \<in> set (declared_fields example_heap [(''a1'', 12)])
   \<and> distinct (map fst [(''a1'', 12 :: addr)])
   \<and> map_of [(''a1'', 10 :: addr), (''a2'', 11)] ''a1'' = Some 10
   \<and> cls_base_fields
        (SerializerMeta_new example_heap ''A'' [Serializer] [(''a1'', 10), (''a2'', 11)])
      = Some [(''a1'', 10), (''a2'', 11)]
   \<and> (\<exists>bfB. cls_base_fields
          (SerializerMeta_new example_heap ''B''
             [SerializerMeta_new example_heap ''A'' [Serializer] [(''a1'', 10), (''a2'', 11)]]
             [(''a1'', 12)]) = Some bfB
        \<and> map fst bfB = [''a1'', ''a2'']
        \<and> map_of bfB ''a1'' = Some 12)"
proof -
  let ?A = "SerializerMeta_new example_heap ''A'' [Serializer] [(''a1'', 10), (''a2'', 11)]"
  have d: "declared_fields example_heap [(''a1'', 12)] = [(''a1'', 12)]"
    by (simp add: declared_fields_def example_heap_fields)
  have h1: "(''a1'', 12) \<in> set (declared_fields example_heap [(''a1'', 12)])"
    by (simp add: d)
  have h2: "distinct (map fst [(''a1'', 12 :: addr)])" by simp
  have h3: "map_of [(''a1'', 10 :: addr), (''a2'', 11)] ''a1'' = Some 10" by simp
  have h4: "cls_base_fields ?A = Some [(''a1'', 10), (''a2'', 11)]"
    by (simp add: cls_base_fields_SerializerMeta_new inherited_fields_def Serializer_def
        declared_fields_def example_heap_fields OrderedDict_def)
  from redeclared_field_keeps_position [OF h1 h2 h3 h4, of "''B''"]
  have "\<exists>bfB. cls_base_fields (SerializerMeta_new example_heap ''B'' [?A] [(''a1'', 12)])
            = Some bfB
        \<and> map fst bfB = [''a1'', ''a2'']
        \<and> map_of bfB ''a1'' = Some 12"
    by (auto simp: d)
  with h1 h2 h3 h4 show ?thesis by simp
qed

section \<open>The example schema\<close>

lemma person_schema_fields:
  "cls_base_fields person_schema = Some [(''name'', 10), (''age'', 11)]"
  by (simp add: person_schema_def cls_base_fields_SerializerMeta_new inherited_fields_def
      Serializer_def declared_fields_def example_heap_fields OrderedDict_def)


section \<open>Instances and their field objects\<close>

lemma deepcopy_obj_instance:
  assumes "objects h x = FieldInstance c f own" and "own = Absent \<or> own = Own None"
  shows "deepcopy_obj x m h =
     (case map_of (fst m) x of
        Some y \<Rightarrow> (y, m, h)
      | None \<Rightarrow> (next_addr h, ((x, next_addr h) # fst m, snd m),
                 h\<lparr>objects := (objects h)(next_addr h := FieldInstance c f own),
                   next_addr := Suc (next_addr h)\<rparr>))"
  using assms by (auto simp: deepcopy_obj_def alloc_def split: option.splits)

lemma deepcopy_obj_step:
  assumes x: "x < n0" "objects h x = FieldInstance c f own" "own = Absent \<or> own = Own None"
    and n0: "n0 \<le> next_addr h"
    and m: "copies_ok n0 h (fst m)"
    and r: "deepcopy_obj x m h = (y, m', h')"
  shows "next_addr h \<le> next_addr h'"
    and "next_sid h' = next_sid h"
    and "\<forall>a < next_addr h. objects h' a = objects h a"
    and "copies_ok n0 h' (fst m')"
    and "n0 \<le> y" and "y < next_addr h'" and "objects h' y = objects h x"
proof -
  note dc = deepcopy_obj_instance [OF x(2,3)]
  show "next_addr h \<le> next_addr h'" "next_sid h' = next_sid h"
    "\<forall>a < next_addr h. objects h' a = objects h a"
    using r unfolding dc by (auto split: option.splits)
  show "copies_ok n0 h' (fst m')"
  proof (cases "map_of (fst m) x")
    case None
    with r have r': "m' = ((x, next_addr h) # fst m, snd m)"
      "h' = h\<lparr>objects := (objects h)(next_addr h := FieldInstance c f own),
                   next_addr := Suc (next_addr h)\<rparr>"
      unfolding dc by auto
    have "a < n0 \<and> n0 \<le> b \<and> b < next_addr h' \<and> objects h' b = objects h' a"
      if "(a, b) \<in> set (fst m')" for a b
    proof (cases "(a, b) = (x, next_addr h)")
      case True
      with x n0 show ?thesis by (simp add: r')
    next
      case False
      with that have "(a, b) \<in> set (fst m)" by (auto simp: r')
      with m have "a < n0 \<and> n0 \<le> b \<and> b < next_addr h \<and> objects h b = objects h a"
        unfolding copies_ok_def by blast
      with n0 show ?thesis by (simp add: r')
    qed
    then show ?thesis unfolding copies_ok_def by blast
  next
    case (Some y')
    with r have "m' = m" "h' = h" unfolding dc by simp_all
    with m show ?thesis by simp
  qed
  show "n0 \<le> y" "y < next_addr h'" "objects h' y = objects h x"
  proof -
    have "n0 \<le> y \<and> y < next_addr h' \<and> objects h' y = objects h x"
    proof (cases "map_of (fst m) x")
      case None
      with r x n0 show ?thesis unfolding dc by auto
    next
      case (Some y')
      with r have e: "y = y'" "m' = m" "h' = h" unfolding dc by simp_all
      from Some have "(x, y') \<in> set (fst m)" by (rule map_of_SomeD)
      with m have "n0 \<le> y' \<and> y' < next_addr h \<and> objects h y' = objects h x"
        unfolding copies_ok_def by blast
      with e show ?thesis by simp
    qed
    then show "n0 \<le> y" "y < next_addr h'" "objects h' y = objects h x" by simp_all
  qed
qed

lemma deepcopy_items_props:
  assumes "\<forall>(k, x) \<in> set bf. x < n0 \<and>
             (\<exists>c f own. objects h x = FieldInstance c f own \<and> (own = Absent \<or> own = Own None))"
    and "n0 \<le> next_addr h"
    and "copies_ok n0 h (fst m)"
    and "deepcopy_items bf m h = (items, m', h')"
  shows "next_addr h \<le> next_addr h' \<and> next_sid h' = next_sid h
       \<and> (\<forall>a < next_addr h. objects h' a = objects h a)
       \<and> copies_ok n0 h' (fst m')
       \<and> list_all2 (\<lambda>(k, x) (k', y). k' = k \<and> n0 \<le> y \<and> y < next_addr h'
                        \<and> objects h' y = objects h x) bf items"
  using assms
proof (induction bf arbitrary: m h items m' h')
  case Nil
  then show ?case by simp
next
  case (Cons p bf)
  obtain k x where p: "p = (k, x)" by (cases p)
  obtain y m1 h1 where s1: "deepcopy_obj x m h = (y, m1, h1)" by (cases "deepcopy_obj x m h")
  obtain rest m2 h2 where s2: "deepcopy_items bf m1 h1 = (rest, m2, h2)"
    by (cases "deepcopy_items bf m1 h1")
  from Cons.prems(4) p s1 s2 have res: "items = (k, y) # rest" "m' = m2" "h' = h2" by simp_all
  from Cons.prems(1) p obtain c f own where x: "x < n0" "objects h x = FieldInstance c f own"
    "own = Absent \<or> own = Own None" by auto
  note st = deepcopy_obj_step [OF x Cons.prems(2,3) s1]
  have same: "\<forall>(k, x) \<in> set bf. objects h1 x = objects h x"
    using Cons.prems(1,2) st(3) by fastforce
  have t1: "\<forall>(k, x) \<in> set bf. x < n0 \<and>
             (\<exists>c f own. objects h1 x = FieldInstance c f own \<and> (own = Absent \<or> own = Own None))"
  proof -
    have "x' < n0 \<and>
        (\<exists>c f own. objects h1 x' = FieldInstance c f own \<and> (own = Absent \<or> own = Own None))"
      if "(k', x') \<in> set bf" for k' x'
    proof -
      from that same have "objects h1 x' = objects h x'" by auto
      with that Cons.prems(1) show ?thesis by auto
    qed
    then show ?thesis by blast
  qed
  have n1: "n0 \<le> next_addr h1" using Cons.prems(2) st(1) by simp
  note ih = Cons.IH [OF t1 n1 st(4) s2]
  have a: "next_addr h \<le> next_addr h2" using st(1) ih by simp
  have b: "next_sid h2 = next_sid h" using st(2) ih by simp
  have c: "\<forall>a < next_addr h. objects h2 a = objects h a" using st(1,3) ih by simp
  have d: "objects h2 y = objects h x \<and> y < next_addr h2"
    using st(5,6,7) ih by auto
  have e: "list_all2 (\<lambda>(k, x) (k', y). k' = k \<and> n0 \<le> y \<and> y < next_addr h2
                        \<and> objects h2 y = objects h x) bf rest"
  proof -
    from ih have L: "list_all2 (\<lambda>(k, x) (k', y). k' = k \<and> n0 \<le> y \<and> y < next_addr h2
                        \<and> objects h2 y = objects h1 x) bf rest" by simp
    from same show ?thesis
      by (intro list.rel_mono_strong [OF L]) auto
  qed
  show ?case unfolding res p using a b c d e ih st(5) by simp
qed

lemma set_parents_props:
  assumes "\<forall>(k, y) \<in> set items.
             \<exists>c f own. objects h y = FieldInstance c f own \<and>
               (own = Own None \<or> own = Own (Some self) \<or>
                own = Absent \<and> (\<exists>g. objects h c = FieldClass g None))"
  shows "\<exists>h'. set_parents self items h = Inr h'
           \<and> next_addr h' = next_addr h \<and> next_sid h' = next_sid h
           \<and> (\<forall>a. objects h' a =
                 (if a \<in> snd ` set items then setattr_parent (objects h a) self
                  else objects h a))"
  using assms
proof (induction items arbitrary: h)
  case Nil
  then show ?case by simp
next
  case (Cons q items)
  obtain k y where q: "q = (k, y)" by (cases q)
  from Cons.prems q obtain c f own where y: "objects h y = FieldInstance c f own"
    and own: "own = Own None \<or> own = Own (Some self) \<or>
                own = Absent \<and> (\<exists>g. objects h c = FieldClass g None)" by auto
  from y own obtain p where gp: "getattr_parent h (objects h y) = Inr p"
    and p: "p = None \<or> p = Some self \<and> own = Own (Some self)"
    by auto
  define h1 where "h1 =
     (if p = None
      then h\<lparr>objects := (objects h)(y := setattr_parent (objects h y) self)\<rparr> else h)"
  have o1: "objects h1 a = (if a = y then FieldInstance c f (Own (Some self)) else objects h a)"
    for a
    using y p unfolding h1_def by auto
  have n1: "next_addr h1 = next_addr h" "next_sid h1 = next_sid h"
    unfolding h1_def by simp_all
  have "\<exists>c f own. objects h1 y' = FieldInstance c f own \<and>
               (own = Own None \<or> own = Own (Some self) \<or>
                own = Absent \<and> (\<exists>g. objects h1 c = FieldClass g None))"
    if "(k', y') \<in> set items" for k' y'
  proof (cases "y' = y")
    case True
    then show ?thesis by (simp add: o1)
  next
    case False
    from Cons.prems that obtain c' f' own' where y': "objects h y' = FieldInstance c' f' own'"
      and own': "own' = Own None \<or> own' = Own (Some self) \<or>
                own' = Absent \<and> (\<exists>g. objects h c' = FieldClass g None)" by fastforce
    have "own' = Absent \<and> (\<exists>g. objects h c' = FieldClass g None) \<Longrightarrow>
          \<exists>g. objects h1 c' = FieldClass g None"
      using y by (auto simp: o1)
    with False y' own' show ?thesis by (auto simp: o1)
  qed
  then have "\<forall>(k, y) \<in> set items.
          \<exists>c f own. objects h1 y = FieldInstance c f own \<and>
               (own = Own None \<or> own = Own (Some self) \<or>
                own = Absent \<and> (\<exists>g. objects h1 c = FieldClass g None))"
    by blast
  from Cons.IH [OF this] obtain h' where h': "set_parents self items h1 = Inr h'"
    "next_addr h' = next_addr h1" "next_sid h' = next_sid h1"
    "\<forall>a. objects h' a =
         (if a \<in> snd ` set items then setattr_parent (objects h1 a) self
          else objects h1 a)" by blast
  have r: "set_parents self (q # items) h = Inr h'"
    using h'(1) gp unfolding h1_def by (simp add: q)
  have "objects h' a =
      (if a \<in> snd ` set (q # items) then setattr_parent (objects h a) self else objects h a)"
    for a
  proof (cases "a = y")
    case True
    with h'(4) y show ?thesis by (simp add: o1 q)
  next
    case False
    with h'(4) show ?thesis by (simp add: o1 q)
  qed
  then have "\<forall>a. objects h' a =
      (if a \<in> snd ` set (q # items) then setattr_parent (objects h a) self else objects h a)"
    by blast
  with r h'(2,3) n1 show ?case by simp
qed

lemma list_all2_right_member:
  "list_all2 P xs ys \<Longrightarrow> y \<in> set ys \<Longrightarrow> \<exists>x. x \<in> set xs \<and> P x y"
  by (induction rule: list_all2_induct) auto

lemma unbound_instance_frame:
  assumes "unbound_instance h x" and "next_addr h \<le> next_addr h'"
    and "\<forall>a < next_addr h. objects h' a = objects h a"
  shows "unbound_instance h' x"
  using assms unfolding unbound_instance_def by auto

lemma get_fields_props:
  assumes c: "cls_base_fields cls = Some bf"
    and t: "\<forall>(k, x) \<in> set bf. unbound_instance h x"
  shows "\<exists>flds h'. get_fields self cls h = Inr (flds, h')
           \<and> next_addr h \<le> next_addr h' \<and> next_sid h' = next_sid h
           \<and> (\<forall>a < next_addr h. objects h' a = objects h a)
           \<and> list_all2 (\<lambda>(k, x) (k', y). k' = k \<and> next_addr h \<le> y \<and> y < next_addr h'
                  \<and> objects h' y = setattr_parent (objects h x) self) bf flds"
proof -
  obtain items m' h1 where dc: "deepcopy_items bf ([], []) h = (items, m', h1)"
    by (cases "deepcopy_items bf ([], []) h")
  have t': "\<forall>(k, x) \<in> set bf. x < next_addr h \<and>
             (\<exists>c f own. objects h x = FieldInstance c f own \<and> (own = Absent \<or> own = Own None))"
    using t unfolding unbound_instance_def by fastforce
  have "copies_ok (next_addr h) h (fst ([], []))" by (simp add: copies_ok_def)
  from deepcopy_items_props [OF t' order_refl this dc]
  have d: "next_addr h \<le> next_addr h1" "next_sid h1 = next_sid h"
    "\<forall>a < next_addr h. objects h1 a = objects h a"
    "list_all2 (\<lambda>(k, x) (k', y). k' = k \<and> next_addr h \<le> y \<and> y < next_addr h1
                        \<and> objects h1 y = objects h x) bf items"
    by simp_all
  have src: "\<exists>k' x. (k', x) \<in> set bf \<and> next_addr h \<le> y \<and> objects h1 y = objects h x"
    if "(k, y) \<in> set items" for k y
    using list_all2_right_member [OF d(4) that] by auto
  have inst: "\<forall>(k, y) \<in> set items.
             \<exists>c f own. objects h1 y = FieldInstance c f own \<and>
               (own = Own None \<or> own = Own (Some self) \<or>
                own = Absent \<and> (\<exists>g. objects h1 c = FieldClass g None))"
  proof -
    have "\<exists>c f own. objects h1 y = FieldInstance c f own \<and>
               (own = Own None \<or> own = Own (Some self) \<or>
                own = Absent \<and> (\<exists>g. objects h1 c = FieldClass g None))"
      if "(k, y) \<in> set items" for k y
    proof -
      from src [OF that] obtain k' x where x: "(k', x) \<in> set bf" "objects h1 y = objects h x"
        by blast
      from x(1) t have "unbound_instance h x" by auto
      then have "unbound_instance h1 x" using d(1,3) by (rule unbound_instance_frame)
      moreover from x(1) t' d(3) have "objects h1 x = objects h x" by auto
      ultimately show ?thesis using x(2) unfolding unbound_instance_def by auto
    qed
    then show ?thesis by blast
  qed
  from set_parents_props [OF inst] obtain h2 where sp: "set_parents self items h1 = Inr h2"
    "next_addr h2 = next_addr h1" "next_sid h2 = next_sid h1"
    "\<forall>a. objects h2 a =
         (if a \<in> snd ` set items then setattr_parent (objects h1 a) self
          else objects h1 a)" by blast
  have gf: "get_fields self cls h = Inr (items, h2)"
    by (simp add: get_fields_def c deepcopy_odict_def dc sp(1))
  have fresh: "next_addr h \<le> y" if "y \<in> snd ` set items" for y
  proof -
    from that obtain k where "(k, y) \<in> set items" by auto
    from src [OF this] show ?thesis by blast
  qed
  have frame: "\<forall>a < next_addr h. objects h2 a = objects h a"
  proof (intro allI impI)
    fix a assume a: "a < next_addr h"
    then have "a \<notin> snd ` set items" using fresh [of a] by auto
    with sp(4) d(3) a show "objects h2 a = objects h a" by simp
  qed
  have "list_all2 (\<lambda>(k, x) (k', y). k' = k \<and> next_addr h \<le> y \<and> y < next_addr h2
                  \<and> objects h2 y = setattr_parent (objects h x) self) bf items"
  proof (rule list.rel_mono_strong [OF d(4)])
    fix p q assume "p \<in> set bf" and q: "q \<in> set items"
      and pq: "(case p of (k, x) \<Rightarrow> \<lambda>(k', y). k' = k \<and> next_addr h \<le> y \<and> y < next_addr h1
                        \<and> objects h1 y = objects h x) q"
    obtain k x where p: "p = (k, x)" by (cases p)
    obtain k' y where q': "q = (k', y)" by (cases q)
    from q q' have "y \<in> snd ` set items" by force
    with sp(4) have "objects h2 y = setattr_parent (objects h1 y) self" by simp
    with pq sp(2) show "(case p of (k, x) \<Rightarrow> \<lambda>(k', y). k' = k \<and> next_addr h \<le> y
          \<and> y < next_addr h2 \<and> objects h2 y = setattr_parent (objects h x) self) q"
      by (simp add: p q')
  qed
  with gf d(1,2) sp(2,3) frame show ?thesis by simp
qed

lemma list_all2_map_eq:
  "list_all2 (\<lambda>p q. f q = g p) xs ys \<Longrightarrow> map f ys = map g xs"
  by (induction rule: list_all2_induct) auto

lemma BaseSerializer_init_props:
  assumes c: "cls_base_fields cls = Some bf"
    and t: "\<forall>(k, x) \<in> set bf. unbound_instance h x"
  shows "\<exists>s h'. BaseSerializer_init cls d h = Inr (s, h')
           \<and> ser_id s = next_sid h \<and> ser_class s = cls \<and> ser_data s = d
           \<and> next_addr h \<le> next_addr h' \<and> next_sid h' = Suc (next_sid h)
           \<and> (\<forall>a < next_addr h. objects h' a = objects h a)
           \<and> list_all2 (\<lambda>(k, x) (k', y). k' = k \<and> next_addr h \<le> y \<and> y < next_addr h'
                  \<and> objects h' y = setattr_parent (objects h x) (next_sid h)) bf (ser_fields s)"
proof -
  let ?h0 = "h\<lparr>next_sid := Suc (next_sid h)\<rparr>"
  have t0: "\<forall>(k, x) \<in> set bf. unbound_instance ?h0 x"
    using t unfolding unbound_instance_def by simp
  from get_fields_props [OF c t0, of "next_sid h"]
  obtain flds h' where g: "get_fields (next_sid h) cls ?h0 = Inr (flds, h')"
    "next_addr h \<le> next_addr h'" "next_sid h' = Suc (next_sid h)"
    "\<forall>a < next_addr h. objects h' a = objects h a"
    "list_all2 (\<lambda>(k, x) (k', y). k' = k \<and> next_addr h \<le> y \<and> y < next_addr h'
                  \<and> objects h' y = setattr_parent (objects h x) (next_sid h)) bf flds"
    by auto
  have "BaseSerializer_init cls d h =
      Inr (\<lparr>ser_id = next_sid h, ser_class = cls, ser_data = d, ser_fields = flds\<rparr>, h')"
    by (simp add: BaseSerializer_init_def new_sid_def g(1))
  with g(2-5) show ?thesis by simp
qed

text \<open>
  The field instances of a template are copied for every schema instance. For a schema
  whose compiled fields are all field instances on which \<open>parent\<close> reads \<open>None\<close>,
  constructing two instances one after the other succeeds and yields field mappings
  with the names of the template in the same order and with the same field contents,
  each field having its own instance as parent; the two mappings share no field object
  with each other or with the template, and no object that existed before is changed.
\<close>

lemma field_instances_are_copied:
  assumes c: "cls_base_fields cls = Some bf"
    and t: "\<forall>(k, x) \<in> set bf. unbound_instance h x"
  shows "\<exists>s1 h1 s2 h2.
      BaseSerializer_init cls d1 h = Inr (s1, h1)
    \<and> BaseSerializer_init cls d2 h1 = Inr (s2, h2)
    \<and> ser_id s1 \<noteq> ser_id s2
    \<and> map (\<lambda>(k, y). (k, objects h2 y)) (ser_fields s1)
        = map (\<lambda>(k, x). (k, setattr_parent (objects h x) (ser_id s1))) bf
    \<and> map (\<lambda>(k, y). (k, objects h2 y)) (ser_fields s2)
        = map (\<lambda>(k, x). (k, setattr_parent (objects h x) (ser_id s2))) bf
    \<and> set (map snd (ser_fields s1)) \<inter> set (map snd (ser_fields s2)) = {}
    \<and> set (map snd (ser_fields s1)) \<inter> set (map snd bf) = {}
    \<and> set (map snd (ser_fields s2)) \<inter> set (map snd bf) = {}
    \<and> (\<forall>a < next_addr h. objects h2 a = objects h a)"
proof -
  from BaseSerializer_init_props [OF c t, of d1]
  obtain s1 h1 where i1: "BaseSerializer_init cls d1 h = Inr (s1, h1)"
    "ser_id s1 = next_sid h" "next_addr h \<le> next_addr h1" "next_sid h1 = Suc (next_sid h)"
    "\<forall>a < next_addr h. objects h1 a = objects h a"
    "list_all2 (\<lambda>(k, x) (k', y). k' = k \<and> next_addr h \<le> y \<and> y < next_addr h1
        \<and> objects h1 y = setattr_parent (objects h x) (next_sid h)) bf (ser_fields s1)"
    by blast
  have t1: "\<forall>(k, x) \<in> set bf. unbound_instance h1 x"
    using t i1(3,5) by (auto intro: unbound_instance_frame)
  from BaseSerializer_init_props [OF c t1, of d2]
  obtain s2 h2 where i2: "BaseSerializer_init cls d2 h1 = Inr (s2, h2)"
    "ser_id s2 = next_sid h1" "next_addr h1 \<le> next_addr h2"
    "\<forall>a < next_addr h1. objects h2 a = objects h1 a"
    "list_all2 (\<lambda>(k, x) (k', y). k' = k \<and> next_addr h1 \<le> y \<and> y < next_addr h2
        \<and> objects h2 y = setattr_parent (objects h1 x) (next_sid h1)) bf (ser_fields s2)"
    by blast
  have ids: "ser_id s1 \<noteq> ser_id s2" using i1(2,4) i2(2) by simp
  have r1: "next_addr h \<le> y \<and> y < next_addr h1" if "y \<in> set (map snd (ser_fields s1))" for y
  proof -
    from that obtain k where "(k, y) \<in> set (ser_fields s1)" by auto
    from list_all2_right_member [OF i1(6) this] show ?thesis by auto
  qed
  have r2: "next_addr h1 \<le> y \<and> y < next_addr h2" if "y \<in> set (map snd (ser_fields s2))" for y
  proof -
    from that obtain k where "(k, y) \<in> set (ser_fields s2)" by auto
    from list_all2_right_member [OF i2(5) this] show ?thesis by auto
  qed
  have r0: "x < next_addr h" if "x \<in> set (map snd bf)" for x
    using that t unfolding unbound_instance_def by auto
  have m1: "map (\<lambda>(k, y). (k, objects h2 y)) (ser_fields s1)
        = map (\<lambda>(k, x). (k, setattr_parent (objects h x) (ser_id s1))) bf"
  proof (rule list_all2_map_eq, rule list.rel_mono_strong [OF i1(6)])
    fix p q assume "p \<in> set bf" and q: "q \<in> set (ser_fields s1)"
      and pq: "(case p of (k, x) \<Rightarrow> \<lambda>(k', y). k' = k \<and> next_addr h \<le> y \<and> y < next_addr h1
        \<and> objects h1 y = setattr_parent (objects h x) (next_sid h)) q"
    obtain k x where p: "p = (k, x)" by (cases p)
    obtain k' y where q': "q = (k', y)" by (cases q)
    from pq i2(4) have "objects h2 y = objects h1 y" by (simp add: p q')
    with pq show "(case q of (k, y) \<Rightarrow> (k, objects h2 y))
        = (case p of (k, x) \<Rightarrow> (k, setattr_parent (objects h x) (ser_id s1)))"
      by (simp add: p q' i1(2))
  qed
  have m2: "map (\<lambda>(k, y). (k, objects h2 y)) (ser_fields s2)
        = map (\<lambda>(k, x). (k, setattr_parent (objects h x) (ser_id s2))) bf"
  proof (rule list_all2_map_eq, rule list.rel_mono_strong [OF i2(5)])
    fix p q assume pb: "p \<in> set bf" and q: "q \<in> set (ser_fields s2)"
      and pq: "(case p of (k, x) \<Rightarrow> \<lambda>(k', y). k' = k \<and> next_addr h1 \<le> y \<and> y < next_addr h2
        \<and> objects h2 y = setattr_parent (objects h1 x) (next_sid h1)) q"
    obtain k x where p: "p = (k, x)" by (cases p)
    obtain k' y where q': "q = (k', y)" by (cases q)
    from pb p have "x \<in> set (map snd bf)" by force
    then have "x < next_addr h" by (rule r0)
    with i1(5) have "objects h1 x = objects h x" by simp
    with pq show "(case q of (k, y) \<Rightarrow> (k, objects h2 y))
        = (case p of (k, x) \<Rightarrow> (k, setattr_parent (objects h x) (ser_id s2)))"
      by (simp add: p q' i2(2))
  qed
  have d12: "set (map snd (ser_fields s1)) \<inter> set (map snd (ser_fields s2)) = {}"
    using r1 r2 by (meson disjoint_iff not_le)
  have d10: "set (map snd (ser_fields s1)) \<inter> set (map snd bf) = {}"
    using r1 r0 by (meson disjoint_iff not_le)
  have d20: "set (map snd (ser_fields s2)) \<inter> set (map snd bf) = {}"
    using r2 r0 i1(3) by (meson disjoint_iff not_le order_trans)
  have fr: "\<forall>a < next_addr h. objects h2 a = objects h a"
    using i1(3,5) i2(4) by (metis less_le_trans)
  from i1(1) i2(1) ids m1 m2 d12 d10 d20 fr show ?thesis by blast
qed

lemma field_class_schema_fields: "cls_base_fields field_class_schema = Some [(''f'', 13)]"
  by (simp add: field_class_schema_def cls_base_fields_SerializerMeta_new inherited_fields_def
      Serializer_def declared_fields_def example_heap_fields OrderedDict_def)

lemma first_construction:
  "BaseSerializer_init field_class_schema PNone example_heap = Inr (instance1, heap1)"
  by (simp add: BaseSerializer_init_def new_sid_def get_fields_def field_class_schema_fields
      deepcopy_odict_def deepcopy_obj_def instance1_def heap1_def example_heap_def)

lemma second_construction:
  "BaseSerializer_init field_class_schema PNone heap1 = Inr (instance2, heap2)"
  by (simp add: BaseSerializer_init_def new_sid_def get_fields_def field_class_schema_fields
      deepcopy_odict_def deepcopy_obj_def instance2_def heap2_def heap1_def example_heap_def)

lemma third_construction:
  "BaseSerializer_init person_schema person_data heap2 = Inr (person3, heap3)"
  by (simp add: BaseSerializer_init_def new_sid_def get_fields_def person_schema_fields
      deepcopy_odict_def deepcopy_obj_def alloc_def person3_def heap3_def heap2_def heap1_def
      example_heap_def)

text \<open>
  Claim C8: two schema instances of one schema definition get field mappings that share
  no field objects; every field of an instance is a copy whose parent is that instance,
  and the field objects of the class-level template are never changed. The code does
  not achieve this for a field that is declared as a field class, which
  \<open>_get_declared_fields\<close> accepts: \<open>deepcopy\<close> returns a class as it is. On the example
  heap, both instances of such a schema hold the object of the template itself, the
  first construction sets \<open>parent\<close> on it, and the field of the second instance has the
  first instance as parent. The parent that was set on the class also shows through on
  the copied field instances of that class in a schema constructed later: they read the
  first instance as parent and are not given their own.
\<close>

theorem field_class_is_shared_between_instances:
  "cls_base_fields field_class_schema = Some [(''f'', 13)]
   \<and> objects example_heap 13 = FieldClass Attr None
   \<and> BaseSerializer_init field_class_schema PNone example_heap = Inr (instance1, heap1)
   \<and> BaseSerializer_init field_class_schema PNone heap1 = Inr (instance2, heap2)
   \<and> ser_fields instance1 = [(''f'', 13)] \<and> ser_fields instance2 = [(''f'', 13)]
   \<and> ser_id instance1 = 0 \<and> ser_id instance2 = 1
   \<and> objects heap2 13 = FieldClass Attr (Some 0)
   \<and> getattr_parent heap2 (objects heap2 13) = Inr (Some 0)
   \<and> BaseSerializer_init person_schema person_data heap2 = Inr (person3, heap3)
   \<and> ser_id person3 = 2 \<and> ser_fields person3 = [(''name'', 17), (''age'', 18)]
   \<and> getattr_parent heap3 (objects heap3 17) = Inr (Some 0)
   \<and> getattr_parent heap3 (objects heap3 18) = Inr (Some 0)"
  using first_construction second_construction third_construction field_class_schema_fields
  by (simp add: instance1_def instance2_def person3_def heap3_def heap2_def heap1_def
      example_heap_def)

section \<open>Field order of the result\<close>















section \<open>validate.email\<close>

text \<open>
  Claim C10: \<open>validate_email("user@example")\<close> raises \<open>ValidationError\<close>,
  \<open>validate_email("user@example.com")\<close> returns its input; the other inputs of
  \<open>test_invalid_email\<close> raise as well, and in general the function raises
  \<open>ValidationError\<close> exactly when its argument does not have the accepted shape, and
  returns the argument unchanged otherwise.
\<close>

theorem validate_email_contract:
  "validate_email ''user@example'' = Inl ValidationError
   \<and> validate_email ''user@example.com'' = Inr ''user@example.com''
   \<and> validate_email ''example.com'' = Inl ValidationError
   \<and> validate_email ''user'' = Inl ValidationError
   \<and> (validate_email v = Inl ValidationError) = (\<not> email_shape v)
   \<and> (validate_email v = Inr v) = email_shape v
   \<and> validate_email v \<in> {Inl ValidationError, Inr v}"
  by (simp add: validate_email_def email_shape_def)

theorem validate_email_contract_witness:
  "validate_email ''ada@example.org'' = Inr ''ada@example.org''
   \<and> validate_email ''ada@@example.org'' = Inl ValidationError
   \<and> validate_email ''@example.org'' = Inl ValidationError"
  using validate_email_contract [of "''ada@example.org''"]
    validate_email_contract [of "''ada@@example.org''"]
    validate_email_contract [of "''@example.org''"]
  by (simp add: email_shape_def)

end
